theory Spec2Isabelle
  imports Complex_Main
begin

section \<open>Data model of \<^verbatim>\<open>park_ihlal.py\<close>\<close>

text \<open>
  The program is the class \<^verbatim>\<open>ParkingViolationSystem\<close> and the script that drives it.
  Pixel coordinates, track ids, class ids and counters are Python/numpy integers; they
  are modelled as \<^typ>\<open>int\<close> (numpy's 64-bit wrap-around is out of reach for coordinates
  of a 1280x720 frame). The signed distance of \<^verbatim>\<open>cv2.pointPolygonTest\<close> and the
  tolerance are floating-point numbers, modelled as \<^typ>\<open>real\<close>.
\<close>

type_synonym box = "int \<times> int \<times> int \<times> int"
type_synonym point = "int \<times> int"
type_synonym polygon = "point list"
type_synonym color = "nat \<times> nat \<times> nat"

text \<open>
  \<^verbatim>\<open>cv2.pointPolygonTest(poly, pt, True)\<close> is a library call: the signed distance of the
  point to the polygon, positive inside. It is a parameter of the model.
\<close>

type_synonym ppt = "polygon \<Rightarrow> point \<Rightarrow> real"

text \<open>One row of \<^verbatim>\<open>st.session_state.violation_log\<close> (the dict appended in \<^verbatim>\<open>_log_violation\<close>).\<close>

record violation_record =
  vehicle_id :: int
  vehicle_type :: string
  timestamp :: string
  status :: string
  evidence :: string

text \<open>
  The attributes that \<^verbatim>\<open>__init__\<close> sets on the instance and that stay fixed afterwards.
  \<^verbatim>\<open>names\<close> is the model's dict from class id to class name.
\<close>

record system =
  evidence_folder :: string
  excel_name :: string
  tolerance :: real
  violation_threshold :: int
  min_box_height :: int
  names :: "int \<rightharpoonup> string"

text \<open>
  The mutable state a method sees: the two keys of \<^verbatim>\<open>st.session_state\<close> (which outlive a
  script run) and the instance attribute \<^verbatim>\<open>self.violation_tracker\<close> (which does not).
\<close>

record state =
  violation_log :: "violation_record list"
  penalized_ids :: "int set"
  violation_tracker :: "int \<rightharpoonup> int"

text \<open>
  What \<^verbatim>\<open>st.session_state\<close> holds between script runs: each key is absent (\<open>None\<close>) or
  present.
\<close>

type_synonym session_state = "violation_record list option \<times> int set option"

datatype py_error = KeyError int

text \<open>
  The texts drawn on the frame, one constructor per f-string of \<^verbatim>\<open>_check_vehicle\<close>;
  \<open>label_text\<close> below gives the string itself.
\<close>

datatype label =
    Penalized_label string int
  | Clean_label string int
  | Violation_label string int
  | Analyzing_label string int int

text \<open>The visible effects of the methods, in the order in which they happen.\<close>

datatype effect =
    Rectangle point point color
  | Put_text label point color
  | Imwrite string
  | Placeholder_image string
  | Toast string

text \<open>The arguments of one call of \<^verbatim>\<open>_check_vehicle\<close>, and the clock read by \<^verbatim>\<open>_log_violation\<close>.\<close>

record call =
  box :: box
  track_id :: int
  cls_id :: int
  min_h :: int
  road_polygons :: "polygon list"
  now :: string

section \<open>Strings\<close>

text \<open>Python's \<^verbatim>\<open>str\<close> of an integer, as the f-strings use it.\<close>

fun str_nat :: "nat \<Rightarrow> string" where
  "str_nat n =
     (if n < 10 then [''0123456789'' ! n]
      else str_nat (n div 10) @ [''0123456789'' ! (n mod 10)])"

declare str_nat.simps [simp del]

definition str_int :: "int \<Rightarrow> string" where
  "str_int i = (if i < 0 then CHR ''-'' # str_nat (nat (- i)) else str_nat (nat i))"

fun label_text :: "label \<Rightarrow> string" where
  "label_text (Penalized_label vt tid) = vt @ '' '' @ str_int tid @ '': PENALIZED''"
| "label_text (Clean_label vt tid) = vt @ '' '' @ str_int tid @ '': Clean''"
| "label_text (Violation_label vt tid) = vt @ '' '' @ str_int tid @ '': VIOLATION!''"
| "label_text (Analyzing_label vt tid remaining) =
     vt @ '' '' @ str_int tid @ '': Analyzing ('' @ str_int remaining @ '')''"

section \<open>The constructor and the reset\<close>

text \<open>
  \<^verbatim>\<open>__init__\<close>, lines 21-28: the settings. The evidence folder and the class names of
  the loaded model are its inputs.
\<close>

definition init_system :: "string \<Rightarrow> (int \<rightharpoonup> string) \<Rightarrow> system" where
  "init_system folder model_names =
     \<lparr>evidence_folder = folder,
      excel_name = ''Parking_Violation_Report.xlsx'',
      tolerance = 5,
      violation_threshold = 15,
      min_box_height = 50,
      names = model_names\<rparr>"

text \<open>
  \<^verbatim>\<open>__init__\<close>, lines 34-37 and 54: a key of the session state is created only when it is
  absent, and the tracker of the new instance is the empty dict. (When the model cannot
  be loaded the script stops inside \<^verbatim>\<open>__init__\<close> and no method is ever called; that path
  has no state to speak of.)
\<close>

definition init :: "session_state \<Rightarrow> state" where
  "init ss =
     (case ss of (log_slot, pen_slot) \<Rightarrow>
        \<lparr>violation_log = (case log_slot of None \<Rightarrow> [] | Some l \<Rightarrow> l),
         penalized_ids = (case pen_slot of None \<Rightarrow> {} | Some p \<Rightarrow> p),
         violation_tracker = Map.empty\<rparr>)"

text \<open>What a script run leaves behind in \<^verbatim>\<open>st.session_state\<close>.\<close>

definition session_of :: "state \<Rightarrow> session_state" where
  "session_of s = (Some (violation_log s), Some (penalized_ids s))"

text \<open>\<^verbatim>\<open>clear_system\<close>, lines 58-59: the two assignments before \<^verbatim>\<open>st.rerun()\<close>.\<close>

definition clear_system :: "state \<Rightarrow> state" where
  "clear_system s = s\<lparr>violation_log := [], penalized_ids := {}\<rparr>"

text \<open>
  \<^verbatim>\<open>st.rerun()\<close> abandons the current script run and runs the script again from its first
  line, on the same session state; line 231 of the script then constructs a new
  \<^verbatim>\<open>ParkingViolationSystem\<close>.
\<close>

definition rerun :: "state \<Rightarrow> state" where
  "rerun s = init (session_of s)"

text \<open>The reset button, lines 238-239 with line 60: \<^verbatim>\<open>clear_system\<close> and the rerun it ends with.\<close>

definition reset_action :: "state \<Rightarrow> state" where
  "reset_action s = rerun (clear_system s)"

section \<open>The road test\<close>

text \<open>
  Lines 129-133: the loop over the road polygons of the frame, left at the first polygon
  whose signed distance to the point reaches the tolerance.
\<close>

fun on_road_loop :: "ppt \<Rightarrow> real \<Rightarrow> point \<Rightarrow> polygon list \<Rightarrow> bool" where
  "on_road_loop sd tol p [] = False"
| "on_road_loop sd tol p (poly # rest) =
     (if sd poly p \<ge> tol then True else on_road_loop sd tol p rest)"

text \<open>
  Line 119: \<^verbatim>\<open>int((x1+x2)/2), int(y2)\<close>. The division is Python's true division and
  \<^verbatim>\<open>int\<close> truncates towards zero.
\<close>

definition trunc_half :: "int \<Rightarrow> int" where
  "trunc_half t = (if 0 \<le> t then t div 2 else - ((- t) div 2))"

definition center :: "box \<Rightarrow> point" where
  "center b = (case b of (x1, y1, x2, y2) \<Rightarrow> (trunc_half (x1 + x2), y2))"

text \<open>The height of a box, as the size filter of line 117 computes it.\<close>

definition box_height :: "box \<Rightarrow> int" where
  "box_height b = (case b of (x1, y1, x2, y2) \<Rightarrow> y2 - y1)"

section \<open>Evidence capture\<close>

text \<open>
  The length of the slice \<^verbatim>\<open>a[start:stop]\<close> of an axis of length \<open>n\<close>, as Python and numpy
  compute it: a negative bound counts from the end, and both bounds are clamped.
\<close>

definition slice_bound :: "int \<Rightarrow> int \<Rightarrow> int" where
  "slice_bound n i = (if i < 0 then max (i + n) 0 else min i n)"

definition slice_len :: "int \<Rightarrow> int \<Rightarrow> int \<Rightarrow> int" where
  "slice_len n start stop = max 0 (slice_bound n stop - slice_bound n start)"

text \<open>
  Line 165, \<^verbatim>\<open>crop.size\<close>: the frame was resized to 1280x720 with three channels
  (line 75).
\<close>

definition crop_size :: "box \<Rightarrow> int" where
  "crop_size b =
     (case b of (x1, y1, x2, y2) \<Rightarrow>
        slice_len 720 (max 0 y1) (min 720 y2) * slice_len 1280 (max 0 x1) (min 1280 x2) * 3)"

text \<open>\<^verbatim>\<open>_log_violation\<close>, lines 160-182.\<close>

definition log_violation ::
    "system \<Rightarrow> state \<Rightarrow> box \<Rightarrow> int \<Rightarrow> string \<Rightarrow> string \<Rightarrow> state \<times> effect list" where
  "log_violation sys s b tid v_type clock =
     (let s1 = s\<lparr>penalized_ids := insert tid (penalized_ids s)\<rparr> in
      if crop_size b > 0 then
        (let img_name = v_type @ ''_'' @ str_int tid @ ''.jpg'';
             full_path = evidence_folder sys @ ''/'' @ img_name
         in (s1\<lparr>violation_log := violation_log s1 @
                  [\<lparr>vehicle_id = tid, vehicle_type = v_type, timestamp = clock,
                    status = ''ILLEGAL PARKING'', evidence = img_name\<rparr>]\<rparr>,
             [Imwrite full_path,
              Placeholder_image (v_type @ '' '' @ str_int tid @ '' Violation''),
              Toast (v_type @ '' '' @ str_int tid @ '' reported!'')]))
      else (s1, []))"

section \<open>The per-vehicle check\<close>

text \<open>
  \<^verbatim>\<open>_check_vehicle\<close>, lines 110-158. The result is the \<^verbatim>\<open>KeyError\<close> of a dict lookup
  that fails, or the new state with the effects of the call.
\<close>

definition check_vehicle ::
    "system \<Rightarrow> ppt \<Rightarrow> call \<Rightarrow> state \<Rightarrow> py_error + state \<times> effect list" where
  "check_vehicle sys sd a s =
     (case box a of (x1, y1, x2, y2) \<Rightarrow>
      if y2 - y1 < min_h a then Inr (s, [])
      else
        (let c = center (box a); tid = track_id a in
         case names sys (cls_id a) of
           None \<Rightarrow> Inl (KeyError (cls_id a))
         | Some vtype \<Rightarrow>
             if tid \<in> penalized_ids s then
               Inr (s, [Rectangle (x1, y1) (x2, y2) (255, 0, 0),
                        Put_text (Penalized_label vtype tid) (x1, y1 - 10) (255, 0, 0)])
             else
               (let on_road = on_road_loop sd (tolerance sys) c (road_polygons a);
                    s1 = (if violation_tracker s tid = None
                          then s\<lparr>violation_tracker := (violation_tracker s)(tid \<mapsto> 0)\<rparr>
                          else s)
                in
                if on_road then
                  Inr (s1\<lparr>violation_tracker := (violation_tracker s1)(tid \<mapsto> 0)\<rparr>,
                       [Rectangle (x1, y1) (x2, y2) (0, 255, 0),
                        Put_text (Clean_label vtype tid) (x1, y1 - 10) (0, 255, 0)])
                else
                  (case violation_tracker s1 tid of
                     None \<Rightarrow> Inl (KeyError tid)
                   | Some n \<Rightarrow>
                       (let s2 = s1\<lparr>violation_tracker := (violation_tracker s1)(tid \<mapsto> n + 1)\<rparr> in
                        if n + 1 > violation_threshold sys then
                          (case log_violation sys s2 (box a) tid vtype (now a) of
                             (s3, effs) \<Rightarrow>
                               Inr (s3, effs @
                                 [Rectangle (x1, y1) (x2, y2) (255, 0, 0),
                                  Put_text (Violation_label vtype tid) (x1, y1 - 10)
                                    (255, 0, 0)]))
                        else
                          Inr (s2,
                               [Rectangle (x1, y1) (x2, y2) (0, 255, 255),
                                Put_text
                                  (Analyzing_label vtype tid
                                     (violation_threshold sys - (n + 1)))
                                  (x1, y1 - 10) (0, 255, 255)]))))))"

text \<open>
  The counter of a track as line 136 reads it: a track that has no entry yet counts
  as 0.
\<close>

definition counter :: "state \<Rightarrow> int \<Rightarrow> int" where
  "counter s tid = (case violation_tracker s tid of None \<Rightarrow> 0 | Some n \<Rightarrow> n)"

text \<open>
  The calls of \<^verbatim>\<open>_check_vehicle\<close> that the frame loop of \<^verbatim>\<open>process_video\<close> makes, one after
  the other (line 103). A \<^verbatim>\<open>KeyError\<close> is not caught there and ends the loop.
\<close>

fun run_checks :: "system \<Rightarrow> ppt \<Rightarrow> call list \<Rightarrow> state \<Rightarrow> py_error + state" where
  "run_checks sys sd [] s = Inr s"
| "run_checks sys sd (a # as) s =
     (case check_vehicle sys sd a s of
        Inl e \<Rightarrow> Inl e
      | Inr (s', effs) \<Rightarrow> run_checks sys sd as s')"

text \<open>
  Evidence capture is called in one branch of \<^verbatim>\<open>_check_vehicle\<close> only (line 151), the one
  that draws the \<^verbatim>\<open>VIOLATION!\<close> text.
\<close>

fun is_violation_text :: "effect \<Rightarrow> bool" where
  "is_violation_text (Put_text (Violation_label vt tid) p c) = True"
| "is_violation_text e = False"

fun is_capture_effect :: "effect \<Rightarrow> bool" where
  "is_capture_effect (Imwrite path) = True"
| "is_capture_effect (Placeholder_image caption) = True"
| "is_capture_effect (Toast msg) = True"
| "is_capture_effect e = False"

text \<open>
  The row that lines 175-181 append for a track and the name of its class, and what lines
  171, 172 and 182 show.
\<close>

definition evidence_row :: "int \<Rightarrow> string \<Rightarrow> string \<Rightarrow> violation_record" where
  "evidence_row tid vt clock =
     \<lparr>vehicle_id = tid, vehicle_type = vt, timestamp = clock, status = ''ILLEGAL PARKING'',
      evidence = vt @ ''_'' @ str_int tid @ ''.jpg''\<rparr>"

definition evidence_shown :: "system \<Rightarrow> int \<Rightarrow> string \<Rightarrow> effect list" where
  "evidence_shown sys tid vt =
     [Imwrite (evidence_folder sys @ ''/'' @ vt @ ''_'' @ str_int tid @ ''.jpg''),
      Placeholder_image (vt @ '' '' @ str_int tid @ '' Violation''),
      Toast (vt @ '' '' @ str_int tid @ '' reported!'')]"

text \<open>
  Evidence capture has happened in a call that took the state \<open>s\<close> to \<open>s'\<close> and showed
  \<open>effs\<close>: the track was not penalized and has been inserted into the penalized set, the
  \<^verbatim>\<open>VIOLATION!\<close> text is drawn, and, unless the crop is empty, the image has been written
  and shown, the operator notified and the row appended to the log.
\<close>

definition captured :: "system \<Rightarrow> call \<Rightarrow> state \<Rightarrow> state \<Rightarrow> effect list \<Rightarrow> bool" where
  "captured sys a s s' effs =
     (case names sys (cls_id a) of
        None \<Rightarrow> False
      | Some vt \<Rightarrow>
          track_id a \<notin> penalized_ids s \<and>
          penalized_ids s' = insert (track_id a) (penalized_ids s) \<and>
          list_ex is_violation_text effs \<and>
          (if crop_size (box a) > 0
           then violation_log s' = violation_log s @ [evidence_row (track_id a) vt (now a)] \<and>
                take 3 effs = evidence_shown sys (track_id a) vt
           else violation_log s' = violation_log s \<and> \<not> list_ex is_capture_effect effs))"

text \<open>
  No evidence capture in the call: the penalized set and the log are as before, nothing
  is written or notified, and no \<^verbatim>\<open>VIOLATION!\<close> text is drawn.
\<close>

definition untouched :: "state \<Rightarrow> state \<Rightarrow> effect list \<Rightarrow> bool" where
  "untouched s s' effs =
     (penalized_ids s' = penalized_ids s \<and> violation_log s' = violation_log s \<and>
      \<not> list_ex is_capture_effect effs \<and> \<not> list_ex is_violation_text effs)"

text \<open>
  A call for track \<open>tid\<close> that passes the size filter, finds the class name and whose
  ground-contact point is not on the road.
\<close>

definition offroad_call :: "system \<Rightarrow> ppt \<Rightarrow> int \<Rightarrow> call \<Rightarrow> bool" where
  "offroad_call sys sd tid a =
     (track_id a = tid \<and> \<not> box_height (box a) < min_h a \<and> names sys (cls_id a) \<noteq> None \<and>
      \<not> on_road_loop sd (tolerance sys) (center (box a)) (road_polygons a))"

text \<open>
  A call that cannot raise the \<^verbatim>\<open>KeyError\<close> of line 120: it is stopped by the size filter
  or its class has a name.
\<close>

definition no_key_error :: "system \<Rightarrow> call \<Rightarrow> bool" where
  "no_key_error sys a = (box_height (box a) < min_h a \<or> names sys (cls_id a) \<noteq> None)"

text \<open>
  The calls of a run in which track \<open>tid\<close> is off the road whenever it is seen, next to
  calls for any other tracks.
\<close>

definition watched :: "system \<Rightarrow> ppt \<Rightarrow> int \<Rightarrow> call \<Rightarrow> bool" where
  "watched sys sd tid a =
     (if track_id a = tid then offroad_call sys sd tid a else no_key_error sys a)"

text \<open>The number of calls for track \<open>tid\<close> in a list of calls.\<close>

definition seen :: "int \<Rightarrow> call list \<Rightarrow> nat" where
  "seen tid as = length (filter (\<lambda>a. track_id a = tid) as)"

section \<open>A session\<close>

text \<open>
  What happens to the state during a browser session: a call of \<^verbatim>\<open>_check_vehicle\<close> from
  the frame loop, the reset button, or a rerun of the script for any other reason (a
  slider moved, a file uploaded, the stop button). An uncaught \<^verbatim>\<open>KeyError\<close> ends the
  script run; the call that raised it has changed nothing.
\<close>

datatype event = Check call | Reset | Rerun

fun step :: "system \<Rightarrow> ppt \<Rightarrow> state \<Rightarrow> event \<Rightarrow> state" where
  "step sys sd s (Check a) =
     (case check_vehicle sys sd a s of Inl e \<Rightarrow> s | Inr (s', effs) \<Rightarrow> s')"
| "step sys sd s Reset = reset_action s"
| "step sys sd s Rerun = rerun s"

text \<open>The session starts with an empty \<^verbatim>\<open>st.session_state\<close> and the first script run.\<close>

definition session :: "system \<Rightarrow> ppt \<Rightarrow> event list \<Rightarrow> state" where
  "session sys sd evs = foldl (step sys sd) (init (None, None)) evs"

text \<open>The calls for track \<open>tid\<close> among the events all have a crop that is not empty.\<close>

fun own_crop_nonempty :: "int \<Rightarrow> event \<Rightarrow> bool" where
  "own_crop_nonempty tid (Check a) = (track_id a \<noteq> tid \<or> crop_size (box a) > 0)"
| "own_crop_nonempty tid e = True"

text \<open>
  What one event may do to the log and the penalized set, from \<open>s\<close> to \<open>s'\<close>: a call
  that inserts its track id into the set appends one row for that id (none when the crop
  is empty) and leaves the rows before it; any other call, and a rerun, leave the log and
  the set as they are; the reset empties both.
\<close>

fun together :: "state \<Rightarrow> event \<Rightarrow> state \<Rightarrow> bool" where
  "together s (Check a) s' =
     (if track_id a \<in> penalized_ids s' \<and> track_id a \<notin> penalized_ids s
      then penalized_ids s' = insert (track_id a) (penalized_ids s) \<and>
           take (length (violation_log s)) (violation_log s') = violation_log s \<and>
           map vehicle_id (drop (length (violation_log s)) (violation_log s')) =
             (if crop_size (box a) > 0 then [track_id a] else [])
      else penalized_ids s' = penalized_ids s \<and> violation_log s' = violation_log s)"
| "together s Reset s' = (penalized_ids s' = {} \<and> violation_log s' = [])"
| "together s Rerun s' =
     (penalized_ids s' = penalized_ids s \<and> violation_log s' = violation_log s)"

fun is_reset :: "event \<Rightarrow> bool" where
  "is_reset Reset = True"
| "is_reset e = False"

fun is_rerun :: "event \<Rightarrow> bool" where
  "is_rerun Rerun = True"
| "is_rerun e = False"

section \<open>The report\<close>

text \<open>What \<^verbatim>\<open>generate_report\<close> shows to the user, in order.\<close>

datatype ui =
    Warning string
  | Info string
  | Success string
  | Download_button string string
  | Dataframe "violation_record list"
  | Error string

text \<open>
  The pandas and xlsxwriter calls inside the \<^verbatim>\<open>try\<close> block are library calls; what they do
  is a parameter. \<open>write_sheet\<close> stands for lines 197-205 (\<open>Some msg\<close>: one of them raises an
  exception with that message), \<open>embed_images\<close> for lines 209-213 and the closing of the
  writer at the end of the \<^verbatim>\<open>with\<close> block (\<open>Inl msg\<close>: an exception, \<open>Inr data\<close>: the
  contents of the buffer).
\<close>

record excel =
  write_sheet :: "violation_record list \<Rightarrow> string option"
  embed_images :: "violation_record list \<Rightarrow> string + string"

text \<open>
  Lines 197-218, the body of the \<^verbatim>\<open>try\<close>: what it has shown, and the exception it raised,
  if any. (The emoji that start the success text and the button label are left out.)
\<close>

definition report_body ::
    "excel \<Rightarrow> string \<Rightarrow> violation_record list \<Rightarrow> ui list \<times> string option" where
  "report_body xl fname df =
     (case write_sheet xl df of
        Some e \<Rightarrow> ([], Some e)
      | None \<Rightarrow>
          (case embed_images xl df of
             Inl e \<Rightarrow> ([Info ''Embedding images into Excel...''], Some e)
           | Inr buffer \<Rightarrow>
               ([Info ''Embedding images into Excel...'',
                 Success (''Total '' @ str_int (int (length df)) @ '' violations reported.''),
                 Download_button buffer fname,
                 Dataframe df], None)))"

text \<open>
  \<^verbatim>\<open>generate_report\<close>, lines 184-221. The rows of the data frame are the rows of the log, and
  their columns are in the order of line 193 already. \<open>Inl\<close> would be an exception that
  leaves the method; the handler of line 220 turns every exception of the body into an
  error message.
\<close>

definition generate_report :: "system \<Rightarrow> excel \<Rightarrow> state \<Rightarrow> string + ui list" where
  "generate_report sys xl s =
     (if violation_log s = [] then Inr [Warning ''No violations recorded yet.'']
      else
        (let df = violation_log s in
         case report_body xl (excel_name sys) df of
           (shown, None) \<Rightarrow> Inr shown
         | (shown, Some e) \<Rightarrow> Inr (shown @ [Error (''Excel Error: '' @ e)])))"

text \<open>The exception, if any, that the library calls of the \<^verbatim>\<open>try\<close> block raise.\<close>

definition serialization_error :: "excel \<Rightarrow> violation_record list \<Rightarrow> string option" where
  "serialization_error xl df =
     (case write_sheet xl df of
        Some e \<Rightarrow> Some e
      | None \<Rightarrow> (case embed_images xl df of Inl e \<Rightarrow> Some e | Inr buffer \<Rightarrow> None))"

fun is_download :: "ui \<Rightarrow> bool" where
  "is_download (Download_button d n) = True"
| "is_download u = False"

section \<open>Concrete inputs\<close>

text \<open>
  A system as line 231 constructs it, for a model whose class 2 is named \<open>car\<close>; one road
  polygon, the square with corners (100,100) and (300,300); and the signed distance to
  that square of the points \<open>(x, 200)\<close> with \<open>x \<le> 200\<close>, which is the distance \<open>x - 100\<close> to
  its left edge.
\<close>

definition demo_system :: system where
  "demo_system = init_system ''evidence'' [2 \<mapsto> ''car'']"

definition demo_square :: polygon where
  "demo_square = [(100, 100), (300, 100), (300, 300), (100, 300)]"

definition demo_sd :: ppt where
  "demo_sd poly p = real_of_int (fst p) - 100"

definition demo_call :: "box \<Rightarrow> polygon list \<Rightarrow> call" where
  "demo_call b polys =
     \<lparr>box = b, track_id = 7, cls_id = 2, min_h = 50, road_polygons = polys,
      now = ''2024-05-01 10:00:00''\<rparr>"

text \<open>
  Track 7 with its ground-contact point at (98, 200), two pixels left of the square; at
  (200, 200), inside the square; in a box of height 40; and in a box of width 0.
\<close>

definition outside_call :: call where
  "outside_call = demo_call (48, 120, 148, 200) [demo_square]"

definition inside_call :: call where
  "inside_call = demo_call (150, 120, 250, 200) [demo_square]"

definition small_call :: call where
  "small_call = demo_call (150, 160, 250, 200) [demo_square]"

definition thin_call :: call where
  "thin_call = demo_call (100, 100, 100, 200) []"

text \<open>
  A second vehicle, track 8, on the road; and sixteen frames that show it together with
  track 7 off the road.
\<close>

definition other_call :: call where
  "other_call = inside_call\<lparr>track_id := 8\<rparr>"

definition two_tracks :: "call list" where
  "two_tracks = concat (replicate 16 [other_call, outside_call])"

text \<open>
  A session in which track 7 is off the road for sixteen frames and then track 8 is, in a
  box of width 0.
\<close>

definition other_thin_call :: call where
  "other_thin_call = thin_call\<lparr>track_id := 8\<rparr>"

definition two_violations :: "event list" where
  "two_violations = replicate 16 (Check outside_call) @ replicate 16 (Check other_thin_call)"

definition fresh :: state where
  "fresh = init (None, None)"

text \<open>
  The state that sixteen frames with track 7 off the road lead to, and what the sixteenth
  call shows.
\<close>

definition penalized_state :: state where
  "penalized_state =
     \<lparr>violation_log =
        [\<lparr>vehicle_id = 7, vehicle_type = ''car'', timestamp = ''2024-05-01 10:00:00'',
          status = ''ILLEGAL PARKING'', evidence = ''car_7.jpg''\<rparr>],
      penalized_ids = {7},
      violation_tracker = [7 \<mapsto> 16]\<rparr>"

definition violation_effects :: "effect list" where
  "violation_effects =
     [Imwrite ''evidence/car_7.jpg'', Placeholder_image ''car 7 Violation'',
      Toast ''car 7 reported!'', Rectangle (48, 120) (148, 200) (255, 0, 0),
      Put_text (Violation_label ''car'' 7) (48, 110) (255, 0, 0)]"

text \<open>
  Two ways for the spreadsheet to fail: the writer cannot be opened, and an image cannot
  be embedded.
\<close>

definition no_excel :: excel where
  "no_excel =
     \<lparr>write_sheet = (\<lambda>df. Some ''No module named xlsxwriter''),
      embed_images = (\<lambda>df. Inr [])\<rparr>"

definition bad_image_excel :: excel where
  "bad_image_excel =
     \<lparr>write_sheet = (\<lambda>df. None),
      embed_images = (\<lambda>df. Inl ''cannot identify image file'')\<rparr>"

section \<open>The branches of the per-vehicle check\<close>

lemma check_vehicle_filtered:
  "box_height (box a) < min_h a \<Longrightarrow> check_vehicle sys sd a s = Inr (s, [])"
  by (auto simp: check_vehicle_def box_height_def split: prod.splits)

lemma check_vehicle_keyerror:
  "\<not> box_height (box a) < min_h a \<Longrightarrow> names sys (cls_id a) = None \<Longrightarrow>
   check_vehicle sys sd a s = Inl (KeyError (cls_id a))"
  by (auto simp: check_vehicle_def box_height_def Let_def split: prod.splits)

lemma check_vehicle_penalized:
  "\<not> box_height (box a) < min_h a \<Longrightarrow> names sys (cls_id a) = Some vt \<Longrightarrow>
   track_id a \<in> penalized_ids s \<Longrightarrow> box a = (x1, y1, x2, y2) \<Longrightarrow>
   check_vehicle sys sd a s =
     Inr (s, [Rectangle (x1, y1) (x2, y2) (255, 0, 0),
              Put_text (Penalized_label vt (track_id a)) (x1, y1 - 10) (255, 0, 0)])"
  by (auto simp: check_vehicle_def box_height_def Let_def split: prod.splits)

lemma check_vehicle_on_road:
  "\<not> box_height (box a) < min_h a \<Longrightarrow> names sys (cls_id a) = Some vt \<Longrightarrow>
   track_id a \<notin> penalized_ids s \<Longrightarrow> box a = (x1, y1, x2, y2) \<Longrightarrow>
   on_road_loop sd (tolerance sys) (center (box a)) (road_polygons a) \<Longrightarrow>
   check_vehicle sys sd a s =
     Inr (s\<lparr>violation_tracker := (violation_tracker s)(track_id a \<mapsto> 0)\<rparr>,
          [Rectangle (x1, y1) (x2, y2) (0, 255, 0),
           Put_text (Clean_label vt (track_id a)) (x1, y1 - 10) (0, 255, 0)])"
  by (auto simp: check_vehicle_def box_height_def Let_def split: prod.splits)

lemma check_vehicle_analyzing:
  "\<not> box_height (box a) < min_h a \<Longrightarrow> names sys (cls_id a) = Some vt \<Longrightarrow>
   track_id a \<notin> penalized_ids s \<Longrightarrow> box a = (x1, y1, x2, y2) \<Longrightarrow>
   \<not> on_road_loop sd (tolerance sys) (center (box a)) (road_polygons a) \<Longrightarrow>
   \<not> counter s (track_id a) + 1 > violation_threshold sys \<Longrightarrow>
   check_vehicle sys sd a s =
     Inr (s\<lparr>violation_tracker := (violation_tracker s)(track_id a \<mapsto> counter s (track_id a) + 1)\<rparr>,
          [Rectangle (x1, y1) (x2, y2) (0, 255, 255),
           Put_text (Analyzing_label vt (track_id a)
              (violation_threshold sys - (counter s (track_id a) + 1))) (x1, y1 - 10) (0, 255, 255)])"
  by (auto simp: check_vehicle_def box_height_def Let_def counter_def split: prod.splits option.splits)

lemma check_vehicle_violation:
  "\<not> box_height (box a) < min_h a \<Longrightarrow> names sys (cls_id a) = Some vt \<Longrightarrow>
   track_id a \<notin> penalized_ids s \<Longrightarrow> box a = (x1, y1, x2, y2) \<Longrightarrow>
   \<not> on_road_loop sd (tolerance sys) (center (box a)) (road_polygons a) \<Longrightarrow>
   counter s (track_id a) + 1 > violation_threshold sys \<Longrightarrow>
   check_vehicle sys sd a s =
     Inr (fst (log_violation sys
            (s\<lparr>violation_tracker := (violation_tracker s)(track_id a \<mapsto> counter s (track_id a) + 1)\<rparr>)
            (box a) (track_id a) vt (now a)),
          snd (log_violation sys
            (s\<lparr>violation_tracker := (violation_tracker s)(track_id a \<mapsto> counter s (track_id a) + 1)\<rparr>)
            (box a) (track_id a) vt (now a)) @
          [Rectangle (x1, y1) (x2, y2) (255, 0, 0),
           Put_text (Violation_label vt (track_id a)) (x1, y1 - 10) (255, 0, 0)])"
  by (auto simp: check_vehicle_def box_height_def Let_def counter_def split: prod.splits option.splits)

lemma log_violation_penalized:
  "penalized_ids (fst (log_violation sys s b tid vt clk)) = insert tid (penalized_ids s)"
  by (simp add: log_violation_def Let_def)

lemma log_violation_tracker:
  "violation_tracker (fst (log_violation sys s b tid vt clk)) = violation_tracker s"
  by (simp add: log_violation_def Let_def)

lemma log_violation_log:
  "map vehicle_id (violation_log (fst (log_violation sys s b tid vt clk))) =
     (if crop_size b > 0 then map vehicle_id (violation_log s) @ [tid]
      else map vehicle_id (violation_log s))"
  by (simp add: log_violation_def Let_def)

lemma check_vehicle_cases:
  assumes "check_vehicle sys sd a s = Inr (s', effs)"
  obtains
    (same) "s' = s"
  | (reset) "track_id a \<notin> penalized_ids s"
      "s' = s\<lparr>violation_tracker := (violation_tracker s)(track_id a \<mapsto> 0)\<rparr>"
  | (count) "track_id a \<notin> penalized_ids s" "\<not> counter s (track_id a) + 1 > violation_threshold sys"
      "s' = s\<lparr>violation_tracker := (violation_tracker s)(track_id a \<mapsto> counter s (track_id a) + 1)\<rparr>"
  | (violation) vt where "track_id a \<notin> penalized_ids s"
      "counter s (track_id a) + 1 > violation_threshold sys"
      "s' = fst (log_violation sys
            (s\<lparr>violation_tracker := (violation_tracker s)(track_id a \<mapsto> counter s (track_id a) + 1)\<rparr>)
            (box a) (track_id a) vt (now a))"
proof -
  obtain x1 y1 x2 y2 where b: "box a = (x1, y1, x2, y2)" by (cases "box a") auto
  show thesis
  proof (cases "box_height (box a) < min_h a")
    case True
    with assms same show ?thesis by (simp add: check_vehicle_filtered)
  next
    case big: False
    show ?thesis
    proof (cases "names sys (cls_id a)")
      case None
      with big assms show ?thesis by (simp add: check_vehicle_keyerror)
    next
      case (Some vt)
      show ?thesis
      proof (cases "track_id a \<in> penalized_ids s")
        case True
        with big Some b assms same show ?thesis by (simp add: check_vehicle_penalized)
      next
        case np: False
        show ?thesis
        proof (cases "on_road_loop sd (tolerance sys) (center (box a)) (road_polygons a)")
          case True
          with big Some b np assms reset show ?thesis by (simp add: check_vehicle_on_road)
        next
          case off: False
          show ?thesis
          proof (cases "counter s (track_id a) + 1 > violation_threshold sys")
            case True
            from check_vehicle_violation[OF big Some np b off True] assms
            have "s' = fst (log_violation sys
              (s\<lparr>violation_tracker := (violation_tracker s)(track_id a \<mapsto> counter s (track_id a) + 1)\<rparr>)
              (box a) (track_id a) vt (now a))" by simp
            with np True violation show ?thesis by blast
          next
            case False
            from check_vehicle_analyzing[OF big Some np b off False] assms
            have "s' = s\<lparr>violation_tracker := (violation_tracker s)(track_id a \<mapsto> counter s (track_id a) + 1)\<rparr>"
              by simp
            with np False count show ?thesis by blast
          qed
        qed
      qed
    qed
  qed
qed

section \<open>The size filter\<close>

text \<open>
  Claim C8. A detection whose box is strictly lower than the minimum height is skipped:
  the call returns the state it was given (the counters, the penalized set and the log
  are the same) and draws nothing.
\<close>

theorem small_box_skipped:
  "box_height (box a) < min_h a \<Longrightarrow> check_vehicle sys sd a s = Inr (s, [])"
  by (rule check_vehicle_filtered)

theorem small_box_skipped_witness:
  "box_height (box small_call) = 40 \<and> min_h small_call = 50 \<and>
   check_vehicle demo_system demo_sd small_call fresh = Inr (fresh, [])"
  using small_box_skipped [of small_call demo_system demo_sd fresh]
  by (simp add: small_call_def demo_call_def box_height_def)

section \<open>The counter\<close>

text \<open>
  Claim C5. A call for a track that is not penalized, that passes the size filter and
  whose class has a name returns normally, and afterwards the counter of the track is 0
  when its ground-contact point is on the road, whatever it was before, and one more than
  before when it is not (a track seen for the first time counts from 0).
\<close>

theorem counter_update:
  assumes "\<not> box_height (box a) < min_h a" and "names sys (cls_id a) \<noteq> None"
    and "track_id a \<notin> penalized_ids s"
  shows "\<exists>s' effs. check_vehicle sys sd a s = Inr (s', effs) \<and>
           violation_tracker s' (track_id a) =
             Some (if on_road_loop sd (tolerance sys) (center (box a)) (road_polygons a)
                   then 0 else counter s (track_id a) + 1)"
proof -
  obtain vt where vt: "names sys (cls_id a) = Some vt" using assms(2) by auto
  obtain x1 y1 x2 y2 where b: "box a = (x1, y1, x2, y2)" by (cases "box a") auto
  show ?thesis
  proof (cases "on_road_loop sd (tolerance sys) (center (box a)) (road_polygons a)")
    case True
    from check_vehicle_on_road[OF assms(1) vt assms(3) b True] True show ?thesis by simp
  next
    case off: False
    show ?thesis
    proof (cases "counter s (track_id a) + 1 > violation_threshold sys")
      case True
      from check_vehicle_violation[OF assms(1) vt assms(3) b off True] off show ?thesis
        by (simp add: log_violation_tracker)
    next
      case False
      from check_vehicle_analyzing[OF assms(1) vt assms(3) b off False] off show ?thesis by simp
    qed
  qed
qed

theorem counter_update_witness:
  "(\<exists>s' effs. check_vehicle demo_system demo_sd inside_call
       (fresh\<lparr>violation_tracker := [7 \<mapsto> 9]\<rparr>) = Inr (s', effs) \<and>
       violation_tracker s' 7 = Some 0) \<and>
   (\<exists>s' effs. check_vehicle demo_system demo_sd outside_call
       (fresh\<lparr>violation_tracker := [7 \<mapsto> 9]\<rparr>) = Inr (s', effs) \<and>
       violation_tracker s' 7 = Some 10)"
  using counter_update [of inside_call demo_system "fresh\<lparr>violation_tracker := [7 \<mapsto> 9]\<rparr>" demo_sd]
    counter_update [of outside_call demo_system "fresh\<lparr>violation_tracker := [7 \<mapsto> 9]\<rparr>" demo_sd]
  by (simp add: demo_system_def init_system_def demo_call_def demo_sd_def demo_square_def
      outside_call_def inside_call_def fresh_def init_def box_height_def center_def
      trunc_half_def counter_def)

section \<open>Helper lemmas on runs of the check\<close>

lemma step_frozen:
  assumes "tid \<in> penalized_ids s" and "check_vehicle sys sd a s = Inr (s', effs)"
  shows "violation_tracker s' tid = violation_tracker s tid \<and> tid \<in> penalized_ids s'"
  using assms(2)
proof (cases rule: check_vehicle_cases)
  case same
  with assms(1) show ?thesis by simp
next
  case reset
  with assms(1) show ?thesis by auto
next
  case count
  with assms(1) show ?thesis by auto
next
  case (violation vt)
  with assms(1) show ?thesis by (auto simp: log_violation_tracker log_violation_penalized)
qed

lemma run_frozen:
  "tid \<in> penalized_ids s \<Longrightarrow> run_checks sys sd as s = Inr s' \<Longrightarrow>
   violation_tracker s' tid = violation_tracker s tid \<and> tid \<in> penalized_ids s'"
proof (induction as arbitrary: s)
  case Nil
  then show ?case by simp
next
  case (Cons a as)
  from Cons.prems(2) obtain s1 effs where
    c: "check_vehicle sys sd a s = Inr (s1, effs)" and r: "run_checks sys sd as s1 = Inr s'"
    by (auto split: sum.splits)
  from step_frozen[OF Cons.prems(1) c]
  have f: "violation_tracker s1 tid = violation_tracker s tid" and p: "tid \<in> penalized_ids s1"
    by simp_all
  from Cons.IH[OF p r] f show ?case by simp
qed

lemma step_bounded:
  assumes "0 \<le> violation_threshold sys"
    and "\<forall>t. t \<notin> penalized_ids s \<longrightarrow> counter s t \<le> violation_threshold sys"
    and "check_vehicle sys sd a s = Inr (s', effs)"
  shows "\<forall>t. t \<notin> penalized_ids s' \<longrightarrow> counter s' t \<le> violation_threshold sys"
  using assms(3)
proof (cases rule: check_vehicle_cases)
  case same
  with assms(2) show ?thesis by simp
next
  case reset
  with assms(1,2) show ?thesis by (auto simp: counter_def)
next
  case count
  with assms(2) show ?thesis by (auto simp: counter_def)
next
  case (violation vt)
  with assms(2) show ?thesis
    by (auto simp: counter_def log_violation_tracker log_violation_penalized)
qed

lemma run_bounded:
  "0 \<le> violation_threshold sys \<Longrightarrow>
   \<forall>t. t \<notin> penalized_ids s \<longrightarrow> counter s t \<le> violation_threshold sys \<Longrightarrow>
   run_checks sys sd as s = Inr s' \<Longrightarrow>
   \<forall>t. t \<notin> penalized_ids s' \<longrightarrow> counter s' t \<le> violation_threshold sys"
proof (induction as arbitrary: s)
  case Nil
  then show ?case by simp
next
  case (Cons a as)
  from Cons.prems(3) obtain s1 effs where
    c: "check_vehicle sys sd a s = Inr (s1, effs)" and r: "run_checks sys sd as s1 = Inr s'"
    by (auto split: sum.splits)
  from Cons.IH[OF Cons.prems(1) step_bounded[OF Cons.prems(1,2) c] r] show ?case .
qed

lemma step_penalize:
  assumes "\<forall>t. t \<notin> penalized_ids s \<longrightarrow> counter s t \<le> violation_threshold sys"
    and "check_vehicle sys sd a s = Inr (s', effs)"
    and "tid \<notin> penalized_ids s" and "tid \<in> penalized_ids s'"
  shows "violation_tracker s' tid = Some (violation_threshold sys + 1)"
  using assms(2)
proof (cases rule: check_vehicle_cases)
  case same
  with assms(3,4) show ?thesis by simp
next
  case reset
  with assms(3,4) show ?thesis by simp
next
  case count
  with assms(3,4) show ?thesis by simp
next
  case (violation vt)
  from violation(3) assms(3,4) have t: "track_id a = tid"
    by (auto simp: log_violation_penalized)
  from assms(1,3) have "counter s tid \<le> violation_threshold sys" by simp
  with violation(2) t have "counter s tid + 1 = violation_threshold sys + 1" by simp
  with violation(3) t show ?thesis by (simp add: log_violation_tracker)
qed

section \<open>The reset\<close>

lemma clear_system_tracker: "violation_tracker (clear_system s) = violation_tracker s"
  by (simp add: clear_system_def)

text \<open>
  Claim C3. After the reset action the mapping from track ids to counters and the set of
  penalized ids are both empty (and so is the log), whatever they held before.
  \<^verbatim>\<open>clear_system\<close> itself empties the log and the set; the counters are emptied by the
  rerun it ends with, which constructs the system anew.
\<close>

theorem reset_clears:
  "violation_tracker (reset_action s) = Map.empty \<and> penalized_ids (reset_action s) = {} \<and>
   violation_log (reset_action s) = []"
  by (simp add: reset_action_def rerun_def clear_system_def session_of_def init_def)

theorem reset_clears_witness:
  "violation_tracker (reset_action \<lparr>violation_log = [], penalized_ids = {7}, violation_tracker = [7 \<mapsto> 16]\<rparr>) = Map.empty \<and>
   penalized_ids (reset_action \<lparr>violation_log = [], penalized_ids = {7}, violation_tracker = [7 \<mapsto> 16]\<rparr>) = {}"
  using reset_clears [of "\<lparr>violation_log = [], penalized_ids = {7}, violation_tracker = [7 \<mapsto> 16]\<rparr>"]
  by simp

section \<open>The road test\<close>

lemma on_road_loop_iff:
  "on_road_loop sd tol p polys \<longleftrightarrow> (\<exists>poly \<in> set polys. tol \<le> sd poly p)"
  by (induction polys) auto

text \<open>
  Claim C2, amended. A point is on the road exactly when its signed distance to at least
  one road polygon of the frame is at least the tolerance. The tolerance is set to +5, so
  the point has to lie 5 pixels or more inside a polygon: a point outside an edge, or
  inside but closer to it than 5 pixels, is not on the road. With no road polygon no
  point is on the road.
\<close>

theorem on_road_iff:
  "(on_road_loop sd (tolerance (init_system folder nm)) p polys \<longleftrightarrow>
      (\<exists>poly \<in> set polys. 5 \<le> sd poly p)) \<and>
   \<not> on_road_loop sd (tolerance (init_system folder nm)) p []"
  by (simp add: on_road_loop_iff init_system_def)

theorem on_road_iff_witness:
  "on_road_loop demo_sd (tolerance demo_system) (200, 200) [demo_square] \<and>
   \<not> on_road_loop demo_sd (tolerance demo_system) (200, 200) []"
  using on_road_iff [of demo_sd "''evidence''" "[2 \<mapsto> ''car'']" "(200, 200)" "[demo_square]"]
  by (simp add: demo_system_def demo_sd_def)

text \<open>
  The claim as written also says that a point slightly outside an edge, within the
  tolerance, counts as on the road. The point (98, 200) is two pixels outside the left
  edge of the square and is not on the road.
\<close>

theorem on_road_counterexample:
  "- tolerance demo_system \<le> demo_sd demo_square (98, 200) \<and>
   demo_sd demo_square (98, 200) < 0 \<and>
   \<not> on_road_loop demo_sd (tolerance demo_system) (98, 200) [demo_square]"
  by (simp add: demo_system_def init_system_def demo_sd_def)

section \<open>Penalized tracks and the size filter\<close>

text \<open>
  Claim C4, amended. The size filter comes first: a call for a penalized track whose box
  is lower than the minimum height draws nothing; otherwise the call draws the track as
  PENALIZED (once the name of its class has been found). In no case does the state change.
\<close>

theorem penalized_after_filter:
  assumes "track_id a \<in> penalized_ids s" and "box a = (x1, y1, x2, y2)"
  shows "check_vehicle sys sd a s =
     (if y2 - y1 < min_h a then Inr (s, [])
      else case names sys (cls_id a) of
        None \<Rightarrow> Inl (KeyError (cls_id a))
      | Some vt \<Rightarrow>
          Inr (s, [Rectangle (x1, y1) (x2, y2) (255, 0, 0),
                   Put_text (Penalized_label vt (track_id a)) (x1, y1 - 10) (255, 0, 0)]))"
  using assms
  by (auto simp: check_vehicle_def Let_def split: option.splits)

theorem penalized_after_filter_witness:
  "check_vehicle demo_system demo_sd inside_call (fresh\<lparr>penalized_ids := {7}\<rparr>) =
     Inr (fresh\<lparr>penalized_ids := {7}\<rparr>,
          [Rectangle (150, 120) (250, 200) (255, 0, 0),
           Put_text (Penalized_label ''car'' 7) (150, 110) (255, 0, 0)])"
  using penalized_after_filter [of inside_call "fresh\<lparr>penalized_ids := {7}\<rparr>" 150 120 250 200 demo_system demo_sd]
  by (simp add: inside_call_def demo_call_def demo_system_def init_system_def)

text \<open>
  The claim as written puts the PENALIZED branch before the size filter. Track 7 is
  penalized and its box is 40 pixels high, with a minimum of 50: nothing is drawn.
\<close>

theorem penalized_counterexample:
  "track_id small_call \<in> penalized_ids (fresh\<lparr>penalized_ids := {7}\<rparr>) \<and>
   check_vehicle demo_system demo_sd small_call (fresh\<lparr>penalized_ids := {7}\<rparr>) =
     Inr (fresh\<lparr>penalized_ids := {7}\<rparr>, [])"
  by (simp add: check_vehicle_def small_call_def demo_call_def)

section \<open>The log and the penalized set\<close>

lemma check_inv:
  assumes "vehicle_id ` set (violation_log s) \<subseteq> penalized_ids s"
    and "distinct (map vehicle_id (violation_log s))"
    and "check_vehicle sys sd a s = Inr (s', effs)"
  shows "vehicle_id ` set (violation_log s') \<subseteq> penalized_ids s' \<and>
         distinct (map vehicle_id (violation_log s'))"
  using assms(3)
proof (cases rule: check_vehicle_cases)
  case same
  with assms show ?thesis by simp
next
  case reset
  with assms show ?thesis by simp
next
  case count
  with assms show ?thesis by simp
next
  case (violation vt)
  let ?s2 = "s\<lparr>violation_tracker := (violation_tracker s)(track_id a \<mapsto> counter s (track_id a) + 1)\<rparr>"
  have ids: "map vehicle_id (violation_log s') =
    (if crop_size (box a) > 0 then map vehicle_id (violation_log s) @ [track_id a]
     else map vehicle_id (violation_log s))"
    using violation(3) log_violation_log[of sys ?s2 "box a" "track_id a" vt "now a"] by simp
  have pen: "penalized_ids s' = insert (track_id a) (penalized_ids s)"
    using violation(3) by (simp add: log_violation_penalized)
  from violation(1) assms(1) have new: "track_id a \<notin> set (map vehicle_id (violation_log s))"
    by auto
  have "set (map vehicle_id (violation_log s')) \<subseteq> penalized_ids s'"
    using ids pen assms(1) by (auto split: if_splits)
  moreover have "distinct (map vehicle_id (violation_log s'))"
    using ids new assms(2) by (simp split: if_splits)
  ultimately show ?thesis by simp
qed

lemma step_inv:
  assumes "vehicle_id ` set (violation_log s) \<subseteq> penalized_ids s"
    and "distinct (map vehicle_id (violation_log s))"
  shows "vehicle_id ` set (violation_log (step sys sd s e)) \<subseteq> penalized_ids (step sys sd s e) \<and>
         distinct (map vehicle_id (violation_log (step sys sd s e)))"
proof (cases e)
  case (Check a)
  show ?thesis
  proof (cases "check_vehicle sys sd a s")
    case (Inl err)
    with Check assms show ?thesis by simp
  next
    case (Inr r)
    obtain s' effs where "r = (s', effs)" by (cases r) auto
    with Inr have c: "check_vehicle sys sd a s = Inr (s', effs)" by simp
    from check_inv[OF assms c] c Check show ?thesis by simp
  qed
next
  case Reset
  then show ?thesis
    by (simp add: reset_action_def rerun_def clear_system_def session_of_def init_def)
next
  case Rerun
  with assms show ?thesis by (simp add: rerun_def session_of_def init_def)
qed

lemma foldl_inv:
  "vehicle_id ` set (violation_log s) \<subseteq> penalized_ids s \<Longrightarrow>
   distinct (map vehicle_id (violation_log s)) \<Longrightarrow>
   vehicle_id ` set (violation_log (foldl (step sys sd) s evs)) \<subseteq>
     penalized_ids (foldl (step sys sd) s evs) \<and>
   distinct (map vehicle_id (violation_log (foldl (step sys sd) s evs)))"
proof (induction evs arbitrary: s)
  case Nil
  then show ?case by simp
next
  case (Cons e evs)
  from step_inv[OF Cons.prems, of sys sd e] Cons.IH[of "step sys sd s e"] show ?case by simp
qed

lemma distinct_at_most_one:
  "distinct (map f xs) \<Longrightarrow> length (filter (\<lambda>x. f x = y) xs) \<le> 1"
  by (induction xs) (auto simp: filter_empty_conv image_iff)

text \<open>
  Claim C7. At every point of a session the log holds at most one record for each track
  id. (Records are only ever appended, by the per-vehicle check on a track that is not in
  the penalized set; the reset empties the log and the set together.)
\<close>

theorem at_most_one_record:
  "length (filter (\<lambda>r. vehicle_id r = tid) (violation_log (session sys sd evs))) \<le> 1"
proof -
  have "distinct (map vehicle_id (violation_log (init (None, None))))"
    and "vehicle_id ` set (violation_log (init (None, None))) \<subseteq> penalized_ids (init (None, None))"
    by (simp_all add: init_def)
  from foldl_inv[OF this(2,1)] have "distinct (map vehicle_id (violation_log (session sys sd evs)))"
    unfolding session_def by blast
  then show ?thesis by (rule distinct_at_most_one)
qed

theorem at_most_one_record_witness:
  "length (filter (\<lambda>r. vehicle_id r = 7)
     (violation_log (session demo_system demo_sd (replicate 20 (Check outside_call))))) \<le> 1"
  using at_most_one_record [of 7 demo_system demo_sd "replicate 20 (Check outside_call)"]
  by simp

section \<open>The report\<close>

text \<open>
  Claim C9. \<^verbatim>\<open>generate_report\<close> always returns. With an empty log it shows the warning and
  nothing else: no spreadsheet is written and no download is offered. With a log that is
  not empty, an exception of the spreadsheet calls ends in the error message that carries
  its text, and no download is offered.
\<close>

theorem generate_report_graceful:
  "\<exists>shown. generate_report sys xl s = Inr shown \<and>
     (violation_log s = [] \<longrightarrow> shown = [Warning ''No violations recorded yet.'']) \<and>
     (violation_log s \<noteq> [] \<and> serialization_error xl (violation_log s) = Some e \<longrightarrow>
        last shown = Error (''Excel Error: '' @ e) \<and> \<not> list_ex is_download shown)"
  by (auto simp: generate_report_def report_body_def serialization_error_def Let_def
      split: option.splits sum.splits)

theorem generate_report_graceful_witness:
  "generate_report demo_system no_excel fresh = Inr [Warning ''No violations recorded yet.''] \<and>
   (\<exists>shown. generate_report demo_system bad_image_excel penalized_state = Inr shown \<and>
      last shown = Error ''Excel Error: cannot identify image file'' \<and>
      \<not> list_ex is_download shown)"
  using generate_report_graceful [of demo_system no_excel fresh "''x''"]
    generate_report_graceful [of demo_system bad_image_excel penalized_state
      "''cannot identify image file''"]
  by (simp add: fresh_def init_def penalized_state_def serialization_error_def
      bad_image_excel_def)

section \<open>Evaluated runs\<close>

lemmas demo_defs = demo_system_def init_system_def demo_call_def demo_sd_def demo_square_def
  outside_call_def inside_call_def fresh_def init_def

lemmas eval_defs = eval_nat_numeral check_vehicle_def log_violation_def crop_size_def
  slice_len_def slice_bound_def str_int_def str_nat.simps demo_defs center_def trunc_half_def
  Let_def

lemma session_append:
  "session sys sd (evs @ rest) = foldl (step sys sd) (session sys sd evs) rest"
  by (simp add: session_def)

lemma seven_penalized:
  "session demo_system demo_sd (replicate 16 (Check outside_call)) = penalized_state"
  by (simp add: session_def eval_defs penalized_state_def)

lemma eight_penalized:
  "foldl (step demo_system demo_sd) penalized_state (replicate 16 (Check other_thin_call)) =
     penalized_state\<lparr>penalized_ids := {7, 8}, violation_tracker := [7 \<mapsto> 16, 8 \<mapsto> 16]\<rparr>"
  by (simp add: eval_defs thin_call_def other_thin_call_def penalized_state_def insert_commute)


lemma two_violations_state:
  "session demo_system demo_sd two_violations =
     penalized_state\<lparr>penalized_ids := {7, 8}, violation_tracker := [7 \<mapsto> 16, 8 \<mapsto> 16]\<rparr>"
  by (simp add: two_violations_def session_append seven_penalized eight_penalized)

lemma own_facts:
  "own_crop_nonempty 7 (Check outside_call)" "own_crop_nonempty 7 (Check other_thin_call)"
  "\<not> own_crop_nonempty 8 (Check other_thin_call)"
  by (simp_all add: crop_size_def slice_len_def slice_bound_def demo_defs thin_call_def
      other_thin_call_def)

lemma fifteen_frames:
  "run_checks demo_system demo_sd (replicate 15 outside_call) fresh =
     Inr (fresh\<lparr>violation_tracker := [7 \<mapsto> 15]\<rparr>)"
  by (simp add: eval_defs)

lemma sixteenth_frame:
  "check_vehicle demo_system demo_sd outside_call (fresh\<lparr>violation_tracker := [7 \<mapsto> 15]\<rparr>) =
     Inr (penalized_state, violation_effects)"
  by (simp add: eval_defs penalized_state_def violation_effects_def)

lemma penalized_frames:
  "check_vehicle demo_system demo_sd inside_call penalized_state =
     Inr (penalized_state,
          [Rectangle (150, 120) (250, 200) (255, 0, 0),
           Put_text (Penalized_label ''car'' 7) (150, 110) (255, 0, 0)])"
  "check_vehicle demo_system demo_sd outside_call penalized_state =
     Inr (penalized_state,
          [Rectangle (48, 120) (148, 200) (255, 0, 0),
           Put_text (Penalized_label ''car'' 7) (48, 110) (255, 0, 0)])"
  by (simp_all add: check_vehicle_def demo_defs penalized_state_def)

section \<open>The violation moment\<close>

lemma log_violation_row:
  "violation_log (fst (log_violation sys s b tid vt clk)) =
     (if crop_size b > 0 then violation_log s @ [evidence_row tid vt clk] else violation_log s)"
  by (simp add: log_violation_def Let_def evidence_row_def)

lemma log_violation_shown:
  "snd (log_violation sys s b tid vt clk) =
     (if crop_size b > 0 then evidence_shown sys tid vt else [])"
  by (simp add: log_violation_def Let_def evidence_shown_def)

lemma check_vehicle_returns:
  assumes "no_key_error sys a"
  shows "\<exists>s' effs. check_vehicle sys sd a s = Inr (s', effs)"
proof (cases "box_height (box a) < min_h a")
  case True
  then show ?thesis by (simp add: check_vehicle_filtered)
next
  case big: False
  with assms obtain vt where vt: "names sys (cls_id a) = Some vt"
    by (auto simp: no_key_error_def)
  obtain x1 y1 x2 y2 where b: "box a = (x1, y1, x2, y2)" by (cases "box a") auto
  show ?thesis
  proof (cases "track_id a \<in> penalized_ids s")
    case True
    from check_vehicle_penalized[OF big vt True b] show ?thesis by simp
  next
    case np: False
    show ?thesis
    proof (cases "on_road_loop sd (tolerance sys) (center (box a)) (road_polygons a)")
      case True
      from check_vehicle_on_road[OF big vt np b True] show ?thesis by simp
    next
      case off: False
      show ?thesis
      proof (cases "counter s (track_id a) + 1 > violation_threshold sys")
        case True
        from check_vehicle_violation[OF big vt np b off True] show ?thesis by simp
      next
        case False
        from check_vehicle_analyzing[OF big vt np b off False] show ?thesis by simp
      qed
    qed
  qed
qed

lemma other_step:
  assumes "track_id a \<noteq> tid" and "no_key_error sys a"
  shows "\<exists>s' effs. check_vehicle sys sd a s = Inr (s', effs) \<and>
           counter s' tid = counter s tid \<and> (tid \<in> penalized_ids s' \<longleftrightarrow> tid \<in> penalized_ids s)"
proof -
  from check_vehicle_returns[OF assms(2)] obtain s' effs where
    c: "check_vehicle sys sd a s = Inr (s', effs)" by blast
  from c have "counter s' tid = counter s tid \<and> (tid \<in> penalized_ids s' \<longleftrightarrow> tid \<in> penalized_ids s)"
  proof (cases rule: check_vehicle_cases)
    case same
    then show ?thesis by simp
  next
    case reset
    with assms(1) show ?thesis by (simp add: counter_def)
  next
    case count
    with assms(1) show ?thesis by (simp add: counter_def)
  next
    case (violation vt)
    with assms(1) show ?thesis
      by (auto simp: counter_def log_violation_tracker log_violation_penalized)
  qed
  with c show ?thesis by blast
qed

lemma own_step_low:
  assumes "offroad_call sys sd tid a" and "tid \<notin> penalized_ids s"
    and "counter s tid + 1 \<le> violation_threshold sys"
  shows "\<exists>s' effs. check_vehicle sys sd a s = Inr (s', effs) \<and> tid \<notin> penalized_ids s' \<and>
           counter s' tid = counter s tid + 1 \<and> untouched s s' effs"
proof -
  from assms(1) obtain vt where vt: "names sys (cls_id a) = Some vt"
    by (auto simp: offroad_call_def)
  obtain x1 y1 x2 y2 where b: "box a = (x1, y1, x2, y2)" by (cases "box a") auto
  from assms have "check_vehicle sys sd a s =
     Inr (s\<lparr>violation_tracker := (violation_tracker s)(track_id a \<mapsto> counter s (track_id a) + 1)\<rparr>,
          [Rectangle (x1, y1) (x2, y2) (0, 255, 255),
           Put_text (Analyzing_label vt (track_id a)
              (violation_threshold sys - (counter s (track_id a) + 1))) (x1, y1 - 10) (0, 255, 255)])"
    using check_vehicle_analyzing[of a sys vt s x1 y1 x2 y2 sd] vt b
    by (simp add: offroad_call_def)
  with assms show ?thesis by (simp add: offroad_call_def counter_def untouched_def)
qed

lemma own_step_high:
  assumes "offroad_call sys sd tid a" and "tid \<notin> penalized_ids s"
    and "counter s tid + 1 > violation_threshold sys"
  shows "\<exists>s' effs. check_vehicle sys sd a s = Inr (s', effs) \<and> tid \<in> penalized_ids s' \<and>
           captured sys a s s' effs"
proof -
  from assms(1) obtain vt where vt: "names sys (cls_id a) = Some vt"
    by (auto simp: offroad_call_def)
  obtain x1 y1 x2 y2 where b: "box a = (x1, y1, x2, y2)" by (cases "box a") auto
  from assms show ?thesis
    using check_vehicle_violation[of a sys vt s x1 y1 x2 y2 sd] vt b
    by (simp add: offroad_call_def captured_def log_violation_penalized log_violation_row
        log_violation_shown evidence_shown_def)
qed

lemma own_step_penalized:
  assumes "offroad_call sys sd tid a" and "tid \<in> penalized_ids s"
  shows "\<exists>effs. check_vehicle sys sd a s = Inr (s, effs) \<and> untouched s s effs"
proof -
  from assms(1) obtain vt where vt: "names sys (cls_id a) = Some vt"
    by (auto simp: offroad_call_def)
  obtain x1 y1 x2 y2 where b: "box a = (x1, y1, x2, y2)" by (cases "box a") auto
  from assms show ?thesis
    using check_vehicle_penalized[of a sys vt s x1 y1 x2 y2 sd] vt b
    by (simp add: offroad_call_def untouched_def)
qed

lemma captured_not_untouched: "captured sys a s s' effs \<Longrightarrow> \<not> untouched s s' effs"
  by (auto simp: captured_def untouched_def split: option.splits)

lemma run_watched_penalized:
  "\<forall>a \<in> set as. watched sys sd tid a \<Longrightarrow> tid \<in> penalized_ids s \<Longrightarrow>
   \<exists>s'. run_checks sys sd as s = Inr s' \<and> tid \<in> penalized_ids s'"
proof (induction as arbitrary: s)
  case Nil
  then show ?case by simp
next
  case (Cons a as)
  from Cons.prems(1) have a: "watched sys sd tid a"
    and rest: "\<forall>a \<in> set as. watched sys sd tid a" by simp_all
  have "\<exists>s1 effs. check_vehicle sys sd a s = Inr (s1, effs) \<and> tid \<in> penalized_ids s1"
  proof (cases "track_id a = tid")
    case True
    with a have "offroad_call sys sd tid a" by (simp add: watched_def)
    from own_step_penalized[OF this Cons.prems(2)] Cons.prems(2) show ?thesis by blast
  next
    case False
    with a have "no_key_error sys a" by (simp add: watched_def)
    from other_step[OF False this, of sd s] Cons.prems(2) show ?thesis by blast
  qed
  then obtain s1 effs where c: "check_vehicle sys sd a s = Inr (s1, effs)"
    and p: "tid \<in> penalized_ids s1" by blast
  from Cons.IH[OF rest p] c show ?case by simp
qed

lemma run_watched:
  "\<forall>a \<in> set as. watched sys sd tid a \<Longrightarrow> tid \<notin> penalized_ids s \<Longrightarrow>
   counter s tid \<le> violation_threshold sys \<Longrightarrow>
   \<exists>s'. run_checks sys sd as s = Inr s' \<and>
     (if counter s tid + int (seen tid as) \<le> violation_threshold sys
      then tid \<notin> penalized_ids s' \<and> counter s' tid = counter s tid + int (seen tid as)
      else tid \<in> penalized_ids s')"
proof (induction as arbitrary: s)
  case Nil
  then show ?case by (simp add: seen_def)
next
  case (Cons a as)
  from Cons.prems(1) have a: "watched sys sd tid a"
    and rest: "\<forall>a \<in> set as. watched sys sd tid a" by simp_all
  show ?case
  proof (cases "track_id a = tid")
    case other: False
    with a have "no_key_error sys a" by (simp add: watched_def)
    from other_step[OF other this, of sd s] obtain s1 effs where
      c: "check_vehicle sys sd a s = Inr (s1, effs)" and k: "counter s1 tid = counter s tid"
      and p: "tid \<in> penalized_ids s1 \<longleftrightarrow> tid \<in> penalized_ids s" by blast
    from p Cons.prems(2) have np: "tid \<notin> penalized_ids s1" by simp
    from k Cons.prems(3) have "counter s1 tid \<le> violation_threshold sys" by simp
    from Cons.IH[OF rest np this] obtain s' where
      r: "run_checks sys sd as s1 = Inr s'"
      and i: "if counter s1 tid + int (seen tid as) \<le> violation_threshold sys
          then tid \<notin> penalized_ids s' \<and> counter s' tid = counter s1 tid + int (seen tid as)
          else tid \<in> penalized_ids s'" by blast
    from c r have "run_checks sys sd (a # as) s = Inr s'" by simp
    moreover from other have "seen tid (a # as) = seen tid as" by (simp add: seen_def)
    ultimately show ?thesis using i k by (auto split: if_splits)
  next
    case own: True
    with a have off: "offroad_call sys sd tid a" by (simp add: watched_def)
    from own have sn: "seen tid (a # as) = Suc (seen tid as)" by (simp add: seen_def)
    show ?thesis
    proof (cases "counter s tid + 1 \<le> violation_threshold sys")
      case True
      from own_step_low[OF off Cons.prems(2) True] obtain s1 effs where
        c: "check_vehicle sys sd a s = Inr (s1, effs)" and np: "tid \<notin> penalized_ids s1"
        and k: "counter s1 tid = counter s tid + 1" by blast
      from True k have "counter s1 tid \<le> violation_threshold sys" by simp
      from Cons.IH[OF rest np this] obtain s' where
        r: "run_checks sys sd as s1 = Inr s'"
        and i: "if counter s1 tid + int (seen tid as) \<le> violation_threshold sys
            then tid \<notin> penalized_ids s' \<and> counter s' tid = counter s1 tid + int (seen tid as)
            else tid \<in> penalized_ids s'" by blast
      from c r have "run_checks sys sd (a # as) s = Inr s'" by simp
      moreover from k sn have "counter s1 tid + int (seen tid as) = counter s tid + int (seen tid (a # as))"
        by simp
      ultimately show ?thesis using i by (auto split: if_splits)
    next
      case False
      then have hi: "counter s tid + 1 > violation_threshold sys" by simp
      from own_step_high[OF off Cons.prems(2) hi] obtain s1 effs where
        c: "check_vehicle sys sd a s = Inr (s1, effs)" and p: "tid \<in> penalized_ids s1" by blast
      from run_watched_penalized[OF rest p] obtain s' where
        r: "run_checks sys sd as s1 = Inr s'" and p': "tid \<in> penalized_ids s'" by blast
      from c r have "run_checks sys sd (a # as) s = Inr s'" by simp
      with p' hi sn show ?thesis by auto
    qed
  qed
qed

text \<open>
  Claim C6. Track \<open>tid\<close> is not penalized, its counter is at most the threshold, and in
  the calls \<open>as\<close> it is off the road, in a box that passes the size filter, whenever it is
  seen; the calls for other tracks are arbitrary. All calls return, and in the call of
  index \<open>k\<close> for the track, evidence capture happens (the id enters the penalized set, the
  image is written and the row appended unless the crop is empty) exactly when the counter
  at the start plus the number of earlier calls for the track is the threshold, which is
  the first call that takes the counter above the threshold; in every other call for the
  track nothing is captured. With threshold 15 and a counter that starts at 0 that is the
  call with 15 earlier calls for the track: the 16th frame that shows it, and no other.
\<close>

theorem violation_fires_on_frame_16:
  assumes "\<forall>a \<in> set as. watched sys sd tid a" and "tid \<notin> penalized_ids s"
    and "counter s tid \<le> violation_threshold sys"
    and "k < length as" and "track_id (as ! k) = tid"
  shows "\<exists>sk s' effs.
           run_checks sys sd (take k as) s = Inr sk \<and>
           check_vehicle sys sd (as ! k) sk = Inr (s', effs) \<and>
           (if counter s tid + int (seen tid (take k as)) = violation_threshold sys
            then captured sys (as ! k) sk s' effs
            else untouched sk s' effs \<and> \<not> captured sys (as ! k) sk s' effs) \<and>
           (violation_threshold sys = 15 \<and> counter s tid = 0 \<longrightarrow>
              (captured sys (as ! k) sk s' effs \<longleftrightarrow> seen tid (take k as) = 15))"
proof -
  let ?j = "int (seen tid (take k as))"
  from assms(1) have pre: "\<forall>a \<in> set (take k as). watched sys sd tid a"
    by (meson in_set_takeD)
  from assms(1,4,5) have ak: "offroad_call sys sd tid (as ! k)"
    by (auto simp: watched_def split: if_splits)
  from run_watched[OF pre assms(2,3)] obtain sk where
    r: "run_checks sys sd (take k as) s = Inr sk"
    and i: "if counter s tid + ?j \<le> violation_threshold sys
        then tid \<notin> penalized_ids sk \<and> counter sk tid = counter s tid + ?j
        else tid \<in> penalized_ids sk" by blast
  have "\<exists>s' effs. check_vehicle sys sd (as ! k) sk = Inr (s', effs) \<and>
      (if counter s tid + ?j = violation_threshold sys
       then captured sys (as ! k) sk s' effs
       else untouched sk s' effs \<and> \<not> captured sys (as ! k) sk s' effs)"
  proof (cases "tid \<in> penalized_ids sk")
    case True
    with i have "\<not> counter s tid + ?j \<le> violation_threshold sys" by (auto split: if_splits)
    with own_step_penalized[OF ak True] captured_not_untouched show ?thesis by fastforce
  next
    case np: False
    with i have le: "counter s tid + ?j \<le> violation_threshold sys"
      and k: "counter sk tid = counter s tid + ?j" by (auto split: if_splits)
    show ?thesis
    proof (cases "counter s tid + ?j = violation_threshold sys")
      case True
      with k have "counter sk tid + 1 > violation_threshold sys" by simp
      from own_step_high[OF ak np this] True show ?thesis by auto
    next
      case False
      with le k have "counter sk tid + 1 \<le> violation_threshold sys" by simp
      from own_step_low[OF ak np this] False captured_not_untouched show ?thesis by fastforce
    qed
  qed
  then obtain s' effs where c: "check_vehicle sys sd (as ! k) sk = Inr (s', effs)"
    and f: "if counter s tid + ?j = violation_threshold sys
       then captured sys (as ! k) sk s' effs
       else untouched sk s' effs \<and> \<not> captured sys (as ! k) sk s' effs" by blast
  from f have "violation_threshold sys = 15 \<and> counter s tid = 0 \<longrightarrow>
      (captured sys (as ! k) sk s' effs \<longleftrightarrow> seen tid (take k as) = 15)"
    by (auto split: if_splits)
  with r c f show ?thesis by blast
qed

theorem violation_fires_on_frame_16_witness:
  "(\<exists>sk s' effs.
      run_checks demo_system demo_sd (take 31 two_tracks) fresh = Inr sk \<and>
      check_vehicle demo_system demo_sd (two_tracks ! 31) sk = Inr (s', effs) \<and>
      seen 7 (take 31 two_tracks) = 15 \<and>
      captured demo_system (two_tracks ! 31) sk s' effs) \<and>
   (\<exists>sk s' effs.
      run_checks demo_system demo_sd (take 29 two_tracks) fresh = Inr sk \<and>
      check_vehicle demo_system demo_sd (two_tracks ! 29) sk = Inr (s', effs) \<and>
      seen 7 (take 29 two_tracks) = 14 \<and>
      untouched sk s' effs)"
proof -
  have w: "\<forall>a \<in> set two_tracks. watched demo_system demo_sd 7 a"
    by (simp add: two_tracks_def watched_def offroad_call_def no_key_error_def demo_defs
        other_call_def box_height_def center_def trunc_half_def)
  have p: "7 \<notin> penalized_ids fresh" and c: "counter fresh 7 \<le> violation_threshold demo_system"
    by (simp_all add: demo_defs counter_def)
  have l: "31 < length two_tracks" "29 < length two_tracks"
    by (simp_all add: two_tracks_def eval_nat_numeral)
  have t: "track_id (two_tracks ! 31) = 7" "track_id (two_tracks ! 29) = 7"
    by (simp_all add: two_tracks_def eval_nat_numeral demo_defs other_call_def)
  have n: "seen 7 (take 31 two_tracks) = 15" "seen 7 (take 29 two_tracks) = 14"
    by (simp_all add: two_tracks_def seen_def eval_nat_numeral demo_defs other_call_def)
  have z: "counter fresh 7 = 0" "violation_threshold demo_system = 15"
    by (simp_all add: demo_defs counter_def)
  from violation_fires_on_frame_16 [OF w p c l(1) t(1)]
    violation_fires_on_frame_16 [OF w p c l(2) t(2)]
  show ?thesis unfolding n z by simp blast
qed

section \<open>The counter of a penalized track\<close>

lemma step_event_frozen:
  assumes "tid \<in> penalized_ids s" and "\<not> is_reset e"
  shows "tid \<in> penalized_ids (step sys sd s e) \<and>
         violation_tracker (step sys sd s e) tid =
           (if is_rerun e then None else violation_tracker s tid)"
proof (cases e)
  case (Check a)
  show ?thesis
  proof (cases "check_vehicle sys sd a s")
    case (Inl err)
    with Check assms show ?thesis by simp
  next
    case (Inr r)
    obtain s' effs where "r = (s', effs)" by (cases r) auto
    with Inr have c: "check_vehicle sys sd a s = Inr (s', effs)" by simp
    from step_frozen[OF assms(1) c] c Check show ?thesis by simp
  qed
next
  case Reset
  with assms show ?thesis by simp
next
  case Rerun
  with assms show ?thesis by (simp add: rerun_def session_of_def init_def)
qed

lemma foldl_frozen:
  "tid \<in> penalized_ids s \<Longrightarrow> \<not> list_ex is_reset evs \<Longrightarrow>
   tid \<in> penalized_ids (foldl (step sys sd) s evs) \<and>
   violation_tracker (foldl (step sys sd) s evs) tid =
     (if list_ex is_rerun evs then None else violation_tracker s tid)"
proof (induction evs arbitrary: s)
  case Nil
  then show ?case by simp
next
  case (Cons e evs)
  from Cons.prems(2) have e: "\<not> is_reset e" and rest: "\<not> list_ex is_reset evs" by simp_all
  from step_event_frozen[OF Cons.prems(1) e, of sys sd]
  have p: "tid \<in> penalized_ids (step sys sd s e)"
    and t: "violation_tracker (step sys sd s e) tid =
           (if is_rerun e then None else violation_tracker s tid)" by simp_all
  from Cons.IH[OF p rest] t show ?case by simp
qed

text \<open>
  Claim C10, amended. Once a track id is in the penalized set, no later call of the
  per-vehicle check (for any track, on the road or not) changes the counter of that track,
  and the id stays in the set. For a system constructed with an empty tracker and a
  threshold that is not negative, the counter of a track at the call that penalizes it is
  the threshold plus one, and it keeps that value over all later calls of the same script
  run. It does not keep it for the rest of the session: every rerun of the script
  constructs the system with an empty tracker while the penalized set stays, so over events
  without a reset the id stays penalized and its counter is the one it had when there was
  no rerun, and absent after a rerun.
\<close>

theorem penalized_counter_frozen:
  "(tid \<in> penalized_ids s \<and> run_checks sys sd as s = Inr s' \<longrightarrow>
      violation_tracker s' tid = violation_tracker s tid \<and> tid \<in> penalized_ids s') \<and>
   (0 \<le> violation_threshold sys \<and> violation_tracker s0 = Map.empty \<and>
    run_checks sys sd before s0 = Inr s1 \<and> tid \<notin> penalized_ids s1 \<and>
    check_vehicle sys sd a s1 = Inr (s2, effs) \<and> tid \<in> penalized_ids s2 \<and>
    run_checks sys sd after s2 = Inr s3 \<longrightarrow>
      violation_tracker s2 tid = Some (violation_threshold sys + 1) \<and>
      violation_tracker s3 tid = Some (violation_threshold sys + 1)) \<and>
   (tid \<in> penalized_ids s \<and> \<not> list_ex is_reset evs \<longrightarrow>
      tid \<in> penalized_ids (foldl (step sys sd) s evs) \<and>
      violation_tracker (foldl (step sys sd) s evs) tid =
        (if list_ex is_rerun evs then None else violation_tracker s tid))"
proof (intro conjI impI)
  assume "tid \<in> penalized_ids s \<and> run_checks sys sd as s = Inr s'"
  then show "violation_tracker s' tid = violation_tracker s tid" "tid \<in> penalized_ids s'"
    using run_frozen by blast+
next
  assume h: "0 \<le> violation_threshold sys \<and> violation_tracker s0 = Map.empty \<and>
    run_checks sys sd before s0 = Inr s1 \<and> tid \<notin> penalized_ids s1 \<and>
    check_vehicle sys sd a s1 = Inr (s2, effs) \<and> tid \<in> penalized_ids s2 \<and>
    run_checks sys sd after s2 = Inr s3"
  then have "\<forall>t. t \<notin> penalized_ids s0 \<longrightarrow> counter s0 t \<le> violation_threshold sys"
    by (simp add: counter_def)
  with h have "\<forall>t. t \<notin> penalized_ids s1 \<longrightarrow> counter s1 t \<le> violation_threshold sys"
    using run_bounded by blast
  with h show v: "violation_tracker s2 tid = Some (violation_threshold sys + 1)"
    using step_penalize by blast
  from h run_frozen[of tid s2 sys sd after s3] v
  show "violation_tracker s3 tid = Some (violation_threshold sys + 1)" by simp
next
  assume h: "tid \<in> penalized_ids s \<and> \<not> list_ex is_reset evs"
  with foldl_frozen[of tid s evs sys sd]
  show "tid \<in> penalized_ids (foldl (step sys sd) s evs)"
    "violation_tracker (foldl (step sys sd) s evs) tid =
        (if list_ex is_rerun evs then None else violation_tracker s tid)" by simp_all
qed

theorem penalized_counter_frozen_witness:
  "violation_tracker penalized_state 7 = Some 16 \<and> 7 \<in> penalized_ids penalized_state \<and>
   run_checks demo_system demo_sd [inside_call, outside_call] penalized_state =
     Inr penalized_state \<and>
   violation_tracker
     (foldl (step demo_system demo_sd) penalized_state [Check inside_call, Check outside_call]) 7 =
     Some 16 \<and>
   violation_tracker
     (foldl (step demo_system demo_sd) penalized_state
        [Check inside_call, Rerun, Check outside_call]) 7 = None"
proof -
  have p: "7 \<in> penalized_ids penalized_state" and v: "violation_tracker penalized_state 7 = Some 16"
    by (simp_all add: penalized_state_def)
  have r: "run_checks demo_system demo_sd [inside_call, outside_call] penalized_state =
      Inr penalized_state" by (simp add: penalized_frames)
  have z: "0 \<le> violation_threshold demo_system" "violation_tracker fresh = Map.empty"
    "7 \<notin> penalized_ids (fresh\<lparr>violation_tracker := [7 \<mapsto> 15]\<rparr>)"
    "violation_threshold demo_system + 1 = 16"
    by (simp_all add: demo_defs)
  have e: "\<not> list_ex is_reset [Check inside_call, Check outside_call]"
    "\<not> list_ex is_rerun [Check inside_call, Check outside_call]"
    "\<not> list_ex is_reset [Check inside_call, Rerun, Check outside_call]"
    "list_ex is_rerun [Check inside_call, Rerun, Check outside_call]" by simp_all
  from penalized_counter_frozen [where tid = 7 and s = penalized_state and sys = demo_system
      and sd = demo_sd and as = "[inside_call, outside_call]" and s' = penalized_state
      and ?s0.0 = fresh and before = "replicate 15 outside_call"
      and ?s1.0 = "fresh\<lparr>violation_tracker := [7 \<mapsto> 15]\<rparr>" and a = outside_call
      and ?s2.0 = penalized_state and effs = violation_effects
      and after = "[inside_call, outside_call]" and ?s3.0 = penalized_state
      and evs = "[Check inside_call, Check outside_call]"]
    p r z fifteen_frames sixteenth_frame e(1,2)
  have a: "violation_tracker penalized_state 7 = Some 16"
    "violation_tracker
      (foldl (step demo_system demo_sd) penalized_state [Check inside_call, Check outside_call]) 7 =
      Some 16" by auto
  from penalized_counter_frozen [where tid = 7 and s = penalized_state and sys = demo_system
      and sd = demo_sd and evs = "[Check inside_call, Rerun, Check outside_call]"] p e(3,4)
  have b: "violation_tracker
      (foldl (step demo_system demo_sd) penalized_state
         [Check inside_call, Rerun, Check outside_call]) 7 = None" by auto
  from a b p r show ?thesis by blast
qed

text \<open>
  The claim as written says that the counter keeps the value for the rest of the session.
  After sixteen frames off the road track 7 is penalized with counter 16; after a rerun
  of the script and one more frame it is still penalized and has no counter.
\<close>

theorem counter_lost_on_rerun_counterexample:
  "7 \<in> penalized_ids (session demo_system demo_sd (replicate 16 (Check outside_call))) \<and>
   violation_tracker (session demo_system demo_sd (replicate 16 (Check outside_call))) 7 = Some 16 \<and>
   7 \<in> penalized_ids
     (session demo_system demo_sd (replicate 16 (Check outside_call) @ [Rerun, Check inside_call])) \<and>
   violation_tracker
     (session demo_system demo_sd (replicate 16 (Check outside_call) @ [Rerun, Check inside_call])) 7 =
     None"
proof -
  have b: "foldl (step demo_system demo_sd) penalized_state [Rerun, Check inside_call] =
      penalized_state\<lparr>violation_tracker := Map.empty\<rparr>"
    by (simp add: check_vehicle_def demo_defs penalized_state_def rerun_def session_of_def)
  show ?thesis unfolding session_append seven_penalized b by (simp add: penalized_state_def)
qed

section \<open>Records and penalized ids\<close>

lemma check_together:
  assumes "check_vehicle sys sd a s = Inr (s', effs)"
  shows "together s (Check a) s'"
  using assms
proof (cases rule: check_vehicle_cases)
  case same
  then show ?thesis by simp
next
  case reset
  then show ?thesis by simp
next
  case count
  then show ?thesis by simp
next
  case (violation vt)
  then show ?thesis
    by (simp add: log_violation_penalized log_violation_row evidence_row_def)
qed

lemma step_together: "together s e (step sys sd s e)"
proof (cases e)
  case (Check a)
  show ?thesis
  proof (cases "check_vehicle sys sd a s")
    case (Inl err)
    with Check show ?thesis by simp
  next
    case (Inr r)
    obtain s' effs where "r = (s', effs)" by (cases r) auto
    with Inr have c: "check_vehicle sys sd a s = Inr (s', effs)" by simp
    from check_together[OF c] c Check show ?thesis by simp
  qed
next
  case Reset
  then show ?thesis
    by (simp add: reset_action_def rerun_def clear_system_def session_of_def init_def)
next
  case Rerun
  then show ?thesis by (simp add: rerun_def session_of_def init_def)
qed

lemma check_own:
  assumes "tid \<in> vehicle_id ` set (violation_log s) \<longleftrightarrow> tid \<in> penalized_ids s"
    and "track_id a \<noteq> tid \<or> crop_size (box a) > 0"
    and "check_vehicle sys sd a s = Inr (s', effs)"
  shows "tid \<in> vehicle_id ` set (violation_log s') \<longleftrightarrow> tid \<in> penalized_ids s'"
  using assms(3)
proof (cases rule: check_vehicle_cases)
  case same
  with assms(1) show ?thesis by simp
next
  case reset
  with assms(1) show ?thesis by simp
next
  case count
  with assms(1) show ?thesis by simp
next
  case (violation vt)
  let ?s2 = "s\<lparr>violation_tracker := (violation_tracker s)(track_id a \<mapsto> counter s (track_id a) + 1)\<rparr>"
  have ids: "map vehicle_id (violation_log s') =
    (if crop_size (box a) > 0 then map vehicle_id (violation_log s) @ [track_id a]
     else map vehicle_id (violation_log s))"
    using violation(3) log_violation_log[of sys ?s2 "box a" "track_id a" vt "now a"] by simp
  have pen: "penalized_ids s' = insert (track_id a) (penalized_ids s)"
    using violation(3) by (simp add: log_violation_penalized)
  have "tid \<in> set (map vehicle_id (violation_log s')) \<longleftrightarrow> tid \<in> penalized_ids s'"
    unfolding ids pen using assms(1,2) by (auto split: if_splits)
  then show ?thesis by simp
qed

lemma step_own:
  assumes "tid \<in> vehicle_id ` set (violation_log s) \<longleftrightarrow> tid \<in> penalized_ids s"
    and "own_crop_nonempty tid e"
  shows "tid \<in> vehicle_id ` set (violation_log (step sys sd s e)) \<longleftrightarrow>
         tid \<in> penalized_ids (step sys sd s e)"
proof (cases e)
  case (Check a)
  show ?thesis
  proof (cases "check_vehicle sys sd a s")
    case (Inl err)
    with Check assms show ?thesis by simp
  next
    case (Inr r)
    obtain s' effs where "r = (s', effs)" by (cases r) auto
    with Inr have c: "check_vehicle sys sd a s = Inr (s', effs)" by simp
    from assms(2) Check have "track_id a \<noteq> tid \<or> crop_size (box a) > 0" by simp
    from check_own[OF assms(1) this c] c Check show ?thesis by simp
  qed
next
  case Reset
  then show ?thesis
    by (simp add: reset_action_def rerun_def clear_system_def session_of_def init_def)
next
  case Rerun
  with assms show ?thesis by (simp add: rerun_def session_of_def init_def)
qed

lemma foldl_own:
  "tid \<in> vehicle_id ` set (violation_log s) \<longleftrightarrow> tid \<in> penalized_ids s \<Longrightarrow>
   list_all (own_crop_nonempty tid) evs \<Longrightarrow>
   tid \<in> vehicle_id ` set (violation_log (foldl (step sys sd) s evs)) \<longleftrightarrow>
     tid \<in> penalized_ids (foldl (step sys sd) s evs)"
proof (induction evs arbitrary: s)
  case Nil
  then show ?case by simp
next
  case (Cons e evs)
  from Cons.prems(2) have e: "own_crop_nonempty tid e"
    and rest: "list_all (own_crop_nonempty tid) evs" by simp_all
  from Cons.IH[OF step_own[OF Cons.prems(1) e] rest] show ?case by simp
qed

text \<open>
  Claim C1, amended. At every point of a session: every track id that has a record in
  the log is in the penalized set, and no id has two records; for every track id whose
  own calls all have a crop that is not empty, the id has a record if and only if it is in
  the penalized set; and in every event, a record is created only in the call that inserts
  its id into the set (that call appends one record for the id, or none when the crop is
  empty), while every other call and a rerun leave the log and the set as they are and the
  reset empties both.
\<close>

theorem log_within_penalized:
  "vehicle_id ` set (violation_log (session sys sd evs)) \<subseteq> penalized_ids (session sys sd evs) \<and>
   distinct (map vehicle_id (violation_log (session sys sd evs))) \<and>
   (list_all (own_crop_nonempty tid) evs \<longrightarrow>
      (tid \<in> vehicle_id ` set (violation_log (session sys sd evs)) \<longleftrightarrow>
       tid \<in> penalized_ids (session sys sd evs))) \<and>
   together (session sys sd evs) e (session sys sd (evs @ [e]))"
proof -
  have i: "tid \<in> vehicle_id ` set (violation_log (init (None, None))) \<longleftrightarrow>
      tid \<in> penalized_ids (init (None, None))"
    and d: "distinct (map vehicle_id (violation_log (init (None, None))))"
    and sub: "vehicle_id ` set (violation_log (init (None, None))) \<subseteq>
      penalized_ids (init (None, None))"
    by (simp_all add: init_def)
  have "together (session sys sd evs) e (session sys sd (evs @ [e]))"
    unfolding session_def by (simp add: step_together)
  with foldl_inv[OF sub d] foldl_own[OF i] show ?thesis unfolding session_def by blast
qed

theorem log_within_penalized_witness:
  "list_all (own_crop_nonempty 7) two_violations \<and>
   \<not> list_all (own_crop_nonempty 8) two_violations \<and>
   map vehicle_id (violation_log (session demo_system demo_sd two_violations)) = [7] \<and>
   penalized_ids (session demo_system demo_sd two_violations) = {7, 8} \<and>
   (7 \<in> vehicle_id ` set (violation_log (session demo_system demo_sd two_violations)) \<longleftrightarrow>
    7 \<in> penalized_ids (session demo_system demo_sd two_violations)) \<and>
   together (session demo_system demo_sd (replicate 15 (Check outside_call))) (Check outside_call)
     (session demo_system demo_sd (replicate 15 (Check outside_call) @ [Check outside_call]))"
proof -
  have own: "list_all (own_crop_nonempty 7) two_violations"
    and other: "\<not> list_all (own_crop_nonempty 8) two_violations"
    by (simp_all add: two_violations_def list_all_iff own_facts del: own_crop_nonempty.simps)
  from log_within_penalized [of demo_system demo_sd two_violations 7 Rerun] own
  have iff: "7 \<in> vehicle_id ` set (violation_log (session demo_system demo_sd two_violations)) \<longleftrightarrow>
      7 \<in> penalized_ids (session demo_system demo_sd two_violations)" by blast
  from log_within_penalized [of demo_system demo_sd "replicate 15 (Check outside_call)" 7
      "Check outside_call"]
  have tog: "together (session demo_system demo_sd (replicate 15 (Check outside_call)))
      (Check outside_call)
      (session demo_system demo_sd (replicate 15 (Check outside_call) @ [Check outside_call]))"
    by blast
  have st: "map vehicle_id (violation_log (session demo_system demo_sd two_violations)) = [7]"
    "penalized_ids (session demo_system demo_sd two_violations) = {7, 8}"
    by (simp_all add: two_violations_state penalized_state_def)
  from own other iff tog st show ?thesis by blast
qed

text \<open>
  The claim as written says that an id is in the penalized set only if it has a record.
  Track 7, off the road for sixteen frames in a box of width 0, is penalized and the log
  is empty.
\<close>

theorem log_iff_penalized_counterexample:
  "7 \<in> penalized_ids (session demo_system demo_sd (replicate 16 (Check thin_call))) \<and>
   violation_log (session demo_system demo_sd (replicate 16 (Check thin_call))) = [] \<and>
   crop_size (box thin_call) = 0"
  by (simp add: session_def eval_nat_numeral check_vehicle_def log_violation_def crop_size_def
      slice_len_def slice_bound_def demo_defs thin_call_def center_def trunc_half_def Let_def)

end
